theory Spec2Isabelle
  imports Main "HOL-Library.Sublist" "HOL-Library.Char_ord" "HOL-Library.List_Lexorder"
    "HOL-Library.Word"
begin

section \<open>The anno-vep plugin: C strings and the C library\<close>

text \<open>
  The plugin \<^verbatim>\<open>plugins/anno-vep.c\<close> reads a tab-separated table of (key, value) rows
  once, and then appends to every transcript of the CSQ field of each record the value
  found for the transcript's gene identifier. Strings of the C code are \<open>string\<close>s
  here (lists of bytes); a C string ends at its first NUL byte, which matters where the
  code meets bytes that did not come from a C string (the lines of a file).
\<close>

abbreviation NUL :: char where "NUL \<equiv> CHR 0x00"
abbreviation TAB :: char where "TAB \<equiv> CHR 0x09"
abbreviation NL :: char where "NL \<equiv> CHR 0x0A"
abbreviation QUOTE :: char where "QUOTE \<equiv> CHR 0x22"
abbreviation PIPE :: char where "PIPE \<equiv> CHR ''|''"
abbreviation COMMA :: char where "COMMA \<equiv> CHR '',''"

text \<open>
  What the code does that a total function cannot: the three ways \<^verbatim>\<open>init\<close> returns -1,
  and the three ways the code leaves the memory it owns (a read beyond the strings or
  spans in use, a write beyond an allocation, a write through the NULL pointer of an
  allocation that failed).
\<close>

datatype error =
    Usage                 \<comment> \<open>\<^verbatim>\<open>argc < 3\<close>: the usage text is printed\<close>
  | ReadingFile string    \<comment> \<open>\<^verbatim>\<open>nitems < 1\<close>: "Error reading the file"\<close>
  | OutOfMemory           \<comment> \<open>\<^verbatim>\<open>realloc\<close> returned NULL\<close>
  | ReadOutOfBounds       \<comment> \<open>a read outside the string or the spans in use\<close>
  | BufferOverflow        \<comment> \<open>a write beyond the end of an allocation\<close>
  | NullWrite             \<comment> \<open>a write through NULL\<close>

text \<open>The contents of a buffer as a C string: the bytes before the first NUL.\<close>

definition c_str :: "string \<Rightarrow> string" where
  "c_str buf = takeWhile (\<lambda>c. c \<noteq> NUL) buf"

definition strlen :: "string \<Rightarrow> nat" where
  "strlen s = length s"

text \<open>
  \<^verbatim>\<open>strcmp\<close> compares byte by byte, as unsigned values; only the sign of the result
  is used by the code.
\<close>

fun strcmp :: "string \<Rightarrow> string \<Rightarrow> int" where
  "strcmp [] [] = 0"
| "strcmp [] (y # ys) = - int (of_char y)"
| "strcmp (x # xs) [] = int (of_char x)"
| "strcmp (x # xs) (y # ys) =
     (if x = y then strcmp xs ys else int (of_char x) - int (of_char y))"

text \<open>
  \<^verbatim>\<open>strstr(haystack, needle)\<close>: the offset of the first occurrence of the needle, or
  \<open>None\<close> for the NULL pointer.
\<close>

fun strstr :: "string \<Rightarrow> string \<Rightarrow> nat option" where
  "strstr [] needle = (if needle = [] then Some 0 else None)"
| "strstr (c # cs) needle =
     (if prefix needle (c # cs) then Some 0 else map_option Suc (strstr cs needle))"

text \<open>
  \<^verbatim>\<open>strtok\<close> with a single delimiter. The argument is the text from the position the
  C library has saved; the result is the token and the text after the delimiter that
  ended it (the new saved position), or \<open>None\<close> for NULL when only delimiters are left.
  Delimiters before the token are skipped, so a token is never empty.
\<close>

definition strtok :: "string \<Rightarrow> char \<Rightarrow> (string \<times> string) option" where
  "strtok s delim =
     (let s1 = dropWhile (\<lambda>c. c = delim) s
      in if s1 = [] then None
         else Some (takeWhile (\<lambda>c. c \<noteq> delim) s1, drop 1 (dropWhile (\<lambda>c. c \<noteq> delim) s1)))"

text \<open>
  \<^verbatim>\<open>strcat\<close> into a buffer of \<open>cap\<close> bytes that holds the string \<open>dst\<close>: the bytes of
  \<open>src\<close> and the terminating NUL are written after \<open>dst\<close>.
\<close>

definition strcat :: "nat \<Rightarrow> string \<Rightarrow> string \<Rightarrow> error + string" where
  "strcat cap dst src =
     (if length dst + length src + 1 \<le> cap then Inr (dst @ src) else Inl BufferOverflow)"

text \<open>
  The buffer that \<^verbatim>\<open>getline\<close> is given: the bytes that \<^verbatim>\<open>line\<close> really points to,
  and the size that the variable \<^verbatim>\<open>n\<close> holds, which is what \<^verbatim>\<open>getline\<close> takes the
  size of the buffer to be.
\<close>

record line_buffer =
  buf_alloc :: nat
  buf_n :: nat

text \<open>
  \<^verbatim>\<open>getline\<close> on the unread rest of a file: the next line with its newline, when it
  has one, the buffer, and the rest after the line; \<open>None\<close> at the end of the file,
  where \<^verbatim>\<open>getline\<close> returns -1. A line that is returned has at least one byte. The
  line and a NUL are stored in the buffer: when they do not fit the size in \<^verbatim>\<open>n\<close>, the
  buffer is reallocated and \<^verbatim>\<open>n\<close> becomes its size (by how much it grows beyond the
  line makes no difference later, since \<^verbatim>\<open>n\<close> is then the true size); when they do
  fit the size in \<^verbatim>\<open>n\<close>, they are written to the buffer as it is, whatever its true
  size.
\<close>

definition getline :: "line_buffer \<Rightarrow> string \<Rightarrow> error + (string \<times> line_buffer \<times> string) option" where
  "getline lb fp =
     (if fp = [] then Inr None
      else
        let line = takeWhile (\<lambda>c. c \<noteq> NL) fp @ take 1 (dropWhile (\<lambda>c. c \<noteq> NL) fp);
            fp' = drop 1 (dropWhile (\<lambda>c. c \<noteq> NL) fp);
            needed = length line + 1
        in if needed \<le> buf_n lb then
             (if needed \<le> buf_alloc lb then Inr (Some (line, lb, fp'))
              else Inl BufferOverflow)
           else Inr (Some (line, \<lparr>buf_alloc = needed, buf_n = needed\<rparr>, fp')))"

section \<open>The lookup table\<close>

record item =
  item_key :: string
  item_value :: string

text \<open>\<^verbatim>\<open>cmp\<close>: the comparison handed to \<^verbatim>\<open>bsearch\<close>, on the keys only.\<close>

definition cmp :: "item \<Rightarrow> item \<Rightarrow> int" where
  "cmp item_a item_b = strcmp (item_key item_a) (item_key item_b)"

text \<open>
  The body of the loop of \<^verbatim>\<open>parse_file\<close> for one line: the newline is cut off, the
  first two tokens between tabs are the key and the value, and the line adds an item when
  both exist. The line is read as a C string; when that string is empty (the line starts
  with a NUL byte) the code reads \<^verbatim>\<open>line[-1]\<close>.
\<close>

definition parse_line :: "string \<Rightarrow> item list \<Rightarrow> error + item list" where
  "parse_line buf il =
     (let line = c_str buf; line_len = strlen line
      in if line_len = 0 then Inl ReadOutOfBounds
         else
           let line = (if line ! (line_len - 1) = NL then take (line_len - 1) line else line)
           in case strtok line TAB of
                None \<Rightarrow> Inr il
              | Some (key, saved) \<Rightarrow>
                  (case strtok saved TAB of
                     None \<Rightarrow> Inr il
                   | Some (val, _) \<Rightarrow> Inr (il @ [\<lparr>item_key = key, item_value = val\<rparr>])))"

text \<open>
  The \<^verbatim>\<open>while (getline(...) > 0)\<close> loop, on the line buffer, the unread rest of the
  file and the items stored so far. The array \<^verbatim>\<open>*il_pt\<close> and the counter
  \<^verbatim>\<open>nrecords\<close> are one list: the counter is its length, and the array grows as the list
  does.
\<close>

function parse_loop :: "line_buffer \<Rightarrow> string \<Rightarrow> item list \<Rightarrow> error + item list" where
  "parse_loop lb fp il =
     (case getline lb fp of
        Inl e \<Rightarrow> Inl e
      | Inr None \<Rightarrow> Inr il
      | Inr (Some (line, lb', fp')) \<Rightarrow>
          (case parse_line line il of
             Inl e \<Rightarrow> Inl e
           | Inr il' \<Rightarrow> parse_loop lb' fp' il'))"
  by pat_completeness auto
termination
proof (relation "measure (\<lambda>(lb, fp, il). length fp)", goal_cases)
  case 1
  show ?case by simp
next
  case (2 lb fp il r p line q lb' fp' il')
  then have "fp \<noteq> []" and "fp' = drop 1 (dropWhile (\<lambda>c. c \<noteq> NL) fp)"
    by (auto simp: getline_def Let_def split: if_splits)
  moreover have "length (dropWhile (\<lambda>c. c \<noteq> NL) fp) \<le> length fp"
    by (rule length_dropWhile_le)
  ultimately show ?case
    by (cases fp) auto
qed

declare parse_loop.simps [simp del]

text \<open>
  \<^verbatim>\<open>parse_file\<close>: the file system is a map from file names to contents, where a name
  without contents is a file that \<^verbatim>\<open>fopen\<close> cannot open. The line buffer has the 1024
  bytes of \<^verbatim>\<open>malloc(1024 * sizeof(char))\<close>, and \<^verbatim>\<open>size_t n\<close> is declared without a
  value: \<open>n0\<close> is the value that it happens to hold. The result is the list of the
  items left in \<^verbatim>\<open>*il_pt\<close>, whose length is the returned count (0 and no item when the
  file cannot be opened). The items are in the order of the file: the function returns
  \<^verbatim>\<open>nrecords\<close> right after the loop. The allocations of the function itself
  (\<^verbatim>\<open>malloc\<close>, \<^verbatim>\<open>realloc\<close> and \<^verbatim>\<open>strdup\<close>, of sizes that are computed without
  wrapping around) are taken to succeed.
\<close>

definition parse_file :: "(string \<rightharpoonup> string) \<Rightarrow> nat \<Rightarrow> string \<Rightarrow> error + item list" where
  "parse_file fs n0 filename =
     (case fs filename of
        None \<Rightarrow> Inr []
      | Some fp \<Rightarrow> parse_loop \<lparr>buf_alloc = 1024, buf_n = n0\<rparr> fp [])"

section \<open>The header and the records of the host library\<close>

text \<open>
  Of a header, the plugin reads the INFO line of one tag: a list of keys with their
  values, such as \<^verbatim>\<open>ID\<close>, \<^verbatim>\<open>Number\<close>, \<^verbatim>\<open>Type\<close> and \<^verbatim>\<open>Description\<close>, the last one with
  its quotes. Of a record, it reads and writes the text of one INFO tag.
\<close>

type_synonym bcf_hrec = "(string \<times> string) list"

record bcf_hdr =
  hdr_info :: "string \<rightharpoonup> bcf_hrec"

record bcf1 =
  rec_info :: "string \<rightharpoonup> string"

definition tolower :: "char \<Rightarrow> char" where
  "tolower c = (let n = (of_char c :: nat) in if 65 \<le> n \<and> n \<le> 90 then char_of (n + 32) else c)"

text \<open>
  \<^verbatim>\<open>bcf_hrec_find_key\<close>: the index of the first key that is the given one up to the
  case of its letters, \<open>None\<close> for -1.
\<close>

fun bcf_hrec_find_key :: "bcf_hrec \<Rightarrow> string \<Rightarrow> nat option" where
  "bcf_hrec_find_key [] k = None"
| "bcf_hrec_find_key ((k', v) # kvs) k =
     (if map tolower k = map tolower k' then Some 0
      else map_option Suc (bcf_hrec_find_key kvs k))"

text \<open>
  \<^verbatim>\<open>bcf_get_info_string\<close>: the length of the text and the text, or a negative number:
  -1 when the header does not define the tag, -3 when the record does not have it.
\<close>

definition bcf_get_info_string :: "bcf_hdr \<Rightarrow> bcf1 \<Rightarrow> string \<Rightarrow> int \<times> string" where
  "bcf_get_info_string hdr rec tag =
     (case hdr_info hdr tag of
        None \<Rightarrow> (- 1, [])
      | Some _ \<Rightarrow>
          (case rec_info rec tag of
             None \<Rightarrow> (- 3, [])
           | Some s \<Rightarrow> (int (length s), s)))"

definition bcf_update_info_string :: "bcf_hdr \<Rightarrow> bcf1 \<Rightarrow> string \<Rightarrow> string \<Rightarrow> bcf1" where
  "bcf_update_info_string hdr rec tag s = rec\<lparr>rec_info := (rec_info rec)(tag \<mapsto> s)\<rparr>"

section \<open>Splitting and searching\<close>

text \<open>
  Modelled from the spec: \<^verbatim>\<open>cols_split\<close> of \<^verbatim>\<open>../cols.h\<close>, which is not among the
  sources. It splits a string at every occurrence of one delimiter and gives one span for
  each token, the empty ones too: as many spans as delimiters and one more, and a single
  empty span for the empty string. The list is \<^verbatim>\<open>off[0]\<close> to \<^verbatim>\<open>off[n - 1]\<close>, and its
  length is \<^verbatim>\<open>n\<close>. Only the spans are modelled: what the call does to the bytes of
  the text it is given is not, and \<^verbatim>\<open>process\<close> is read with \<^verbatim>\<open>csq_str\<close> holding the
  whole field when its length is taken for the size of the output buffer.
\<close>

fun cols_split :: "string \<Rightarrow> char \<Rightarrow> string list" where
  "cols_split [] delim = [[]]"
| "cols_split (c # cs) delim =
     (if c = delim then [] # cols_split cs delim
      else (case cols_split cs delim of
              [] \<Rightarrow> [[c]]
            | tok # toks \<Rightarrow> (c # tok) # toks))"

text \<open>
  \<^verbatim>\<open>bsearch\<close> of the C library, as a binary search over the half-open range from
  \<open>l\<close> to \<open>u\<close>: it looks at the middle element, and goes on below it, above it, or
  returns it. The number of members is the length of the list, so the upper end of the
  range is never beyond it and the middle element exists; the test \<open>u \<le> length base\<close>
  says so.
\<close>

function bsearch_loop :: "'a \<Rightarrow> 'a list \<Rightarrow> ('a \<Rightarrow> 'a \<Rightarrow> int) \<Rightarrow> nat \<Rightarrow> nat \<Rightarrow> 'a option" where
  "bsearch_loop k base compar l u =
     (if l < u \<and> u \<le> length base then
        let idx = (l + u) div 2; comparison = compar k (base ! idx)
        in if comparison < 0 then bsearch_loop k base compar l idx
           else if comparison > 0 then bsearch_loop k base compar (idx + 1) u
           else Some (base ! idx)
      else None)"
  by pat_completeness auto
termination
  by (relation "measure (\<lambda>(k, base, compar, l, u). u - l)") auto

declare bsearch_loop.simps [simp del]

definition bsearch :: "'a \<Rightarrow> 'a list \<Rightarrow> ('a \<Rightarrow> 'a \<Rightarrow> int) \<Rightarrow> 'a option" where
  "bsearch k base compar = bsearch_loop k base compar 0 (length base)"

section \<open>The per-record hook\<close>

text \<open>What \<^verbatim>\<open>init\<close> leaves in the global variables for \<^verbatim>\<open>process\<close>.\<close>

record plugin =
  header :: bcf_hdr
  items :: "item list"

text \<open>
  The \<^verbatim>\<open>for\<close> loop of \<^verbatim>\<open>process\<close>, on the transcripts \<^verbatim>\<open>off[i]\<close> to \<^verbatim>\<open>off[n - 1]\<close>
  that are left and the string in the output buffer of \<open>cap\<close> bytes. The gene
  identifier is read from \<^verbatim>\<open>cols_csq->off[4]\<close>, whatever the number of spans of the
  transcript is; with fewer than five, that is a read outside the spans in use.
\<close>

fun rewrite_loop :: "item list \<Rightarrow> nat \<Rightarrow> string list \<Rightarrow> string \<Rightarrow> error + string" where
  "rewrite_loop its cap [] new_csq_str = Inr new_csq_str"
| "rewrite_loop its cap (transcript # rest) new_csq_str =
     (case strcat cap new_csq_str transcript of
        Inl e \<Rightarrow> Inl e
      | Inr s1 \<Rightarrow>
     (case strcat cap s1 [PIPE] of
        Inl e \<Rightarrow> Inl e
      | Inr s2 \<Rightarrow>
     (let cols_csq = cols_split transcript PIPE
      in if length cols_csq \<le> 4 then Inl ReadOutOfBounds
         else
           let gene_id = cols_csq ! 4
           in case (if strlen gene_id > 0 then
                      (case bsearch \<lparr>item_key = gene_id, item_value = []\<rparr> its cmp of
                         None \<Rightarrow> Inr s2
                       | Some found \<Rightarrow> strcat cap s2 (item_value found))
                    else Inr s2) of
                Inl e \<Rightarrow> Inl e
              | Inr s3 \<Rightarrow>
             (case (if rest \<noteq> [] then strcat cap s3 [COMMA] else Inr s3) of
                Inl e \<Rightarrow> Inl e
              | Inr s4 \<Rightarrow> rewrite_loop its cap rest s4))))"

text \<open>
  The size \<^verbatim>\<open>strlen(csq_str) + 1024 * cols_tr->n\<close> as the machine computes it:
  \<^verbatim>\<open>1024 * cols_tr->n\<close> is a product of two \<^verbatim>\<open>int\<close>s of 32 bits, which wraps around
  in two's complement; it is converted with its sign to the \<^verbatim>\<open>size_t\<close> of 64 bits of
  \<^verbatim>\<open>strlen\<close>, and the sum wraps around at \<open>2 ^ 64\<close>.
\<close>

definition buffer_size :: "nat \<Rightarrow> nat \<Rightarrow> nat" where
  "buffer_size len n =
     unat ((word_of_nat len :: 64 word) + word_of_int (sint ((1024 :: 32 word) * word_of_nat n)))"

text \<open>
  \<^verbatim>\<open>calloc\<close> when \<open>avail\<close> bytes can still be allocated: the number of bytes of the
  new buffer, or \<open>None\<close> for NULL.
\<close>

definition calloc :: "nat \<Rightarrow> nat \<Rightarrow> nat option" where
  "calloc avail bytes = (if bytes \<le> avail then Some bytes else None)"

text \<open>
  The block of \<^verbatim>\<open>process\<close> that builds the new text of the field: the split into
  transcripts, the buffer of zero bytes from \<^verbatim>\<open>calloc\<close>, whose result is used as it
  comes, and the loop. The loop runs once at least, and its first \<^verbatim>\<open>strcat\<close> writes
  through the pointer that \<^verbatim>\<open>calloc\<close> gave.
\<close>

definition rewrite_csq :: "nat \<Rightarrow> item list \<Rightarrow> string \<Rightarrow> error + string" where
  "rewrite_csq avail its csq_str =
     (let cols_tr = cols_split csq_str COMMA
      in case calloc avail (buffer_size (strlen csq_str) (length cols_tr)) of
           None \<Rightarrow> Inl NullWrite
         | Some cap \<Rightarrow> rewrite_loop its cap cols_tr [])"

text \<open>
  \<^verbatim>\<open>process\<close>, with the memory that \<^verbatim>\<open>calloc\<close> can give, the state that
  \<^verbatim>\<open>init\<close> left, and the record.
\<close>

definition process :: "nat \<Rightarrow> plugin \<Rightarrow> bcf1 \<Rightarrow> error + bcf1" where
  "process avail st rec =
     (case bcf_get_info_string (header st) rec ''CSQ'' of
        (lcsq_str, csq_str) \<Rightarrow>
          if lcsq_str > 0 then
            (case rewrite_csq avail (items st) csq_str of
               Inl e \<Rightarrow> Inl e
             | Inr new_csq_str \<Rightarrow>
                 Inr (bcf_update_info_string (header st) rec ''CSQ'' new_csq_str))
          else Inr rec)"

section \<open>Startup\<close>

text \<open>
  The patch of the description in \<^verbatim>\<open>init\<close>, on the value \<^verbatim>\<open>hrec->vals[ret]\<close>.
  When \<^verbatim>\<open>"Format: "\<close> is found, \<^verbatim>\<open>format\<close> is the offset just after it, and the NUL
  written to \<^verbatim>\<open>format[strlen(format) - 1]\<close> cuts the value at that offset (for an empty
  \<^verbatim>\<open>format\<close> the index wraps around to the byte before it). Then, found or not, the
  value is reallocated with room for three more bytes and the tag, and \<^verbatim>\<open>|\<close>, the tag
  and a quote are appended. \<open>realloc_ok\<close> says whether \<^verbatim>\<open>realloc\<close> gives memory.
\<close>

definition annotate :: "bool \<Rightarrow> string \<Rightarrow> string \<Rightarrow> error + string" where
  "annotate realloc_ok val new_tag =
     (let val1 = (case strstr val ''Format: '' of
                    None \<Rightarrow> val
                  | Some p \<Rightarrow>
                      let format = p + 8
                      in take (format + strlen (drop format val) - 1) val)
      in if realloc_ok then
           let cap = strlen val1 + strlen new_tag + 3
           in case strcat cap val1 [PIPE] of
                Inl e \<Rightarrow> Inl e
              | Inr s1 \<Rightarrow>
             (case strcat cap s1 new_tag of
                Inl e \<Rightarrow> Inl e
              | Inr s2 \<Rightarrow> strcat cap s2 [QUOTE])
         else Inl OutOfMemory)"

text \<open>The header part of \<^verbatim>\<open>init\<close>: the INFO line of CSQ and its Description, if any.\<close>

definition patch_header :: "bool \<Rightarrow> bcf_hdr \<Rightarrow> string \<Rightarrow> error + bcf_hdr" where
  "patch_header realloc_ok hdr new_tag =
     (case hdr_info hdr ''CSQ'' of
        None \<Rightarrow> Inr hdr
      | Some hrec \<Rightarrow>
          (case bcf_hrec_find_key hrec ''Description'' of
             None \<Rightarrow> Inr hdr
           | Some ret \<Rightarrow>
               (case annotate realloc_ok (snd (hrec ! ret)) new_tag of
                  Inl e \<Rightarrow> Inl e
                | Inr new_val \<Rightarrow>
                    Inr (hdr\<lparr>hdr_info :=
                          (hdr_info hdr)(''CSQ'' \<mapsto> hrec[ret := (fst (hrec ! ret), new_val)])\<rparr>))))"

text \<open>
  \<^verbatim>\<open>init\<close>: \<open>argv\<close> is the list of the arguments and \<^verbatim>\<open>argc\<close> its length; the input
  header is not used by the code; \<open>n0\<close> is for \<^verbatim>\<open>parse_file\<close>. The result is the state
  of the plugin when the code returns 0, and the error when it returns -1.
\<close>

definition init :: "(string \<rightharpoonup> string) \<Rightarrow> nat \<Rightarrow> bool \<Rightarrow> string list \<Rightarrow> bcf_hdr \<Rightarrow> error + plugin" where
  "init fs n0 realloc_ok argv out =
     (if length argv < 3 then Inl Usage
      else
        let new_tag = argv ! 1; filename = argv ! 2
        in case parse_file fs n0 filename of
             Inl e \<Rightarrow> Inl e
           | Inr its \<Rightarrow>
               if length its < 1 then Inl (ReadingFile filename)
               else (case patch_header realloc_ok out new_tag of
                       Inl e \<Rightarrow> Inl e
                     | Inr hdr \<Rightarrow> Inr \<lparr>header = hdr, items = its\<rparr>))"

section \<open>What the table and the new field should be\<close>

text \<open>
  The lines of a file, each with its newline when it has one; the tokens of a line: what is
  between its tabs, not counting the newline at its end, the empty tokens left out; and the
  rows of a file: for each line with two tokens or more, its first two.
\<close>

fun file_lines :: "string \<Rightarrow> string list" where
  "file_lines [] = []"
| "file_lines (c # cs) =
     (if c = NL then [NL] # file_lines cs
      else (case file_lines cs of [] \<Rightarrow> [[c]] | l # ls \<Rightarrow> (c # l) # ls))"

definition strip_newline :: "string \<Rightarrow> string" where
  "strip_newline line = (if line \<noteq> [] \<and> last line = NL then butlast line else line)"

definition tokens :: "string \<Rightarrow> char \<Rightarrow> string list" where
  "tokens s d = filter (\<lambda>tok. tok \<noteq> []) (cols_split s d)"

definition tab_tokens :: "string \<Rightarrow> string list" where
  "tab_tokens line = tokens (strip_newline line) TAB"

definition row_of :: "string \<Rightarrow> item list" where
  "row_of line =
     (let toks = tab_tokens line
      in if length toks < 2 then [] else [\<lparr>item_key = toks ! 0, item_value = toks ! 1\<rparr>])"

definition usable_rows :: "string \<Rightarrow> item list" where
  "usable_rows contents = concat (map row_of (file_lines contents))"

text \<open>A table is sorted when no key is greater than the key after it.\<close>

fun table_sorted :: "item list \<Rightarrow> bool" where
  "table_sorted (a # b # rest) = (strcmp (item_key a) (item_key b) \<le> 0 \<and> table_sorted (b # rest))"
| "table_sorted _ = True"

text \<open>
  The value that the loop of \<^verbatim>\<open>process\<close> appends for a transcript, if any: the one
  of the item found for a fifth sub-field that is not empty; the text of the new slot;
  the transcripts joined by commas; and the new field, each transcript with its new slot.
\<close>

definition matched_value :: "item list \<Rightarrow> string \<Rightarrow> string option" where
  "matched_value its transcript =
     (let cols_csq = cols_split transcript PIPE
      in if length cols_csq \<le> 4 then None
         else
           let gene_id = cols_csq ! 4
           in if gene_id = [] then None
              else map_option item_value (bsearch \<lparr>item_key = gene_id, item_value = []\<rparr> its cmp))"

definition new_slot :: "item list \<Rightarrow> string \<Rightarrow> string" where
  "new_slot its transcript = (case matched_value its transcript of None \<Rightarrow> [] | Some v \<Rightarrow> v)"



section \<open>Tokens and rows\<close>

lemma cols_split_not_Nil [simp]: "cols_split s d \<noteq> []"
  by (induction s) (auto split: list.splits)

lemma cols_split_delim [simp]: "cols_split (d # s) d = [] # cols_split s d"
  by simp

lemma cols_split_other: "c \<noteq> d \<Longrightarrow> cols_split (c # s) d = (c # hd (cols_split s d)) # tl (cols_split s d)"
  by (cases "cols_split s d") auto

lemma tokens_Nil [simp]: "tokens [] d = []"
  by (simp add: tokens_def)

lemma tokens_delim [simp]: "tokens (d # s) d = tokens s d"
  by (simp add: tokens_def)

lemma tokens_dropWhile: "tokens (dropWhile (\<lambda>c. c = d) s) d = tokens s d"
  by (induction s) auto

lemma cols_split_takeWhile:
  "cols_split s d =
     takeWhile (\<lambda>c. c \<noteq> d) s #
       (case dropWhile (\<lambda>c. c \<noteq> d) s of [] \<Rightarrow> [] | _ # r \<Rightarrow> cols_split r d)"
proof (induction s)
  case Nil
  show ?case by simp
next
  case (Cons c s)
  show ?case
  proof (cases "c = d")
    case True
    then show ?thesis by simp
  next
    case False
    then show ?thesis
      using Cons.IH by (simp add: cols_split_other)
  qed
qed

lemma dropWhile_eq_Cons_neq: "dropWhile (\<lambda>c. c = d) s = c # r \<Longrightarrow> c \<noteq> d"
  using hd_dropWhile [of "\<lambda>c. c = d" s] by auto

lemma tokens_Cons_other: "c \<noteq> d \<Longrightarrow> tokens (c # r) d \<noteq> []"
  by (simp add: tokens_def cols_split_other del: cols_split.simps)

lemma strtok_None: "strtok s d = None \<longleftrightarrow> tokens s d = []"
proof (cases "dropWhile (\<lambda>c. c = d) s")
  case Nil
  have "tokens s d = tokens (dropWhile (\<lambda>c. c = d) s) d"
    by (simp only: tokens_dropWhile)
  also have "\<dots> = []"
    by (simp only: Nil tokens_Nil)
  finally show ?thesis using Nil by (simp add: strtok_def)
next
  case (Cons c r)
  then have "c \<noteq> d" by (rule dropWhile_eq_Cons_neq)
  then have "tokens (c # r) d \<noteq> []" by (rule tokens_Cons_other)
  moreover have "tokens s d = tokens (c # r) d"
    using tokens_dropWhile [of d s] by (simp only: Cons)
  ultimately show ?thesis using Cons by (simp add: strtok_def)
qed

lemma tokens_after:
  "filter (\<lambda>tok. tok \<noteq> []) (case xs of [] \<Rightarrow> [] | _ # r \<Rightarrow> cols_split r d) = tokens (drop 1 xs) d"
  by (cases xs) (simp_all add: tokens_def)

lemma strtok_Some:
  assumes "strtok s d = Some (tok, saved)"
  shows "tokens s d = tok # tokens saved d \<and> tok \<noteq> []"
proof -
  define s1 where "s1 = dropWhile (\<lambda>c. c = d) s"
  from assms have ne: "s1 \<noteq> []"
    and tok: "tok = takeWhile (\<lambda>c. c \<noteq> d) s1"
    and saved: "saved = drop 1 (dropWhile (\<lambda>c. c \<noteq> d) s1)"
    by (auto simp: strtok_def s1_def Let_def split: if_splits)
  from ne obtain c r where s1: "s1 = c # r" by (cases s1) auto
  then have "c \<noteq> d"
    unfolding s1_def by (rule dropWhile_eq_Cons_neq)
  with s1 tok have tokne: "tok \<noteq> []" by simp
  have "cols_split s1 d = tok # (case dropWhile (\<lambda>c. c \<noteq> d) s1 of [] \<Rightarrow> [] | _ # r \<Rightarrow> cols_split r d)"
    unfolding tok by (rule cols_split_takeWhile)
  moreover have "filter (\<lambda>tok. tok \<noteq> []) (case dropWhile (\<lambda>c. c \<noteq> d) s1 of [] \<Rightarrow> [] | _ # r \<Rightarrow> cols_split r d) = tokens saved d"
    unfolding saved by (rule tokens_after)
  ultimately have "tokens s1 d = tok # tokens saved d"
    using tokne by (simp add: tokens_def)
  moreover have "tokens s d = tokens s1 d"
    unfolding s1_def by (simp only: tokens_dropWhile)
  ultimately show ?thesis
    using tokne by simp
qed

lemma c_str_text: "NUL \<notin> set buf \<Longrightarrow> c_str buf = buf"
  by (auto simp: c_str_def)

lemma parse_tokens:
  "(case strtok line TAB of
      None \<Rightarrow> Inr il
    | Some (k, saved) \<Rightarrow>
        (case strtok saved TAB of
           None \<Rightarrow> Inr il
         | Some (v, _) \<Rightarrow> Inr (il @ [\<lparr>item_key = k, item_value = v\<rparr>]))) =
   (Inr (il @ (let toks = tokens line TAB
               in if length toks < 2 then [] else [\<lparr>item_key = toks ! 0, item_value = toks ! 1\<rparr>]))
      :: error + item list)"
proof (cases "strtok line TAB")
  case None
  then have "tokens line TAB = []" by (simp add: strtok_None)
  with None show ?thesis by simp
next
  case (Some p)
  obtain k saved where p: "p = (k, saved)" by (cases p)
  with Some have t1: "tokens line TAB = k # tokens saved TAB"
    using strtok_Some by blast
  show ?thesis
  proof (cases "strtok saved TAB")
    case None
    then have "tokens saved TAB = []" by (simp add: strtok_None)
    with None Some p t1 show ?thesis by simp
  next
    case (Some q)
    obtain v saved' where q: "q = (v, saved')" by (cases q)
    with Some have "tokens saved TAB = v # tokens saved' TAB"
      using strtok_Some by blast
    with Some q \<open>strtok line TAB = Some p\<close> p t1 show ?thesis by simp
  qed
qed

lemma parse_line_text:
  assumes "NUL \<notin> set buf" and "buf \<noteq> []"
  shows "parse_line buf il = Inr (il @ row_of buf)"
proof -
  have "parse_line buf il =
        (case strtok (strip_newline buf) TAB of
           None \<Rightarrow> Inr il
         | Some (k, saved) \<Rightarrow>
             (case strtok saved TAB of
                None \<Rightarrow> Inr il
              | Some (v, _) \<Rightarrow> Inr (il @ [\<lparr>item_key = k, item_value = v\<rparr>])))"
    using assms
    by (simp add: parse_line_def c_str_text strlen_def Let_def strip_newline_def
        last_conv_nth butlast_conv_take)
  then show ?thesis
    by (simp only: parse_tokens row_of_def tab_tokens_def)
qed

lemma file_lines_getline:
  "file_lines fp =
     (if fp = [] then []
      else (takeWhile (\<lambda>c. c \<noteq> NL) fp @ take 1 (dropWhile (\<lambda>c. c \<noteq> NL) fp)) #
             file_lines (drop 1 (dropWhile (\<lambda>c. c \<noteq> NL) fp)))"
proof (induction fp)
  case Nil
  show ?case by simp
next
  case (Cons c cs)
  show ?case
  proof (cases "c = NL")
    case True
    then show ?thesis by simp
  next
    case False
    show ?thesis
    proof (cases cs)
      case Nil
      with False show ?thesis by simp
    next
      case (Cons c' cs')
      then have "cs \<noteq> []" by simp
      with Cons.IH False show ?thesis by simp
    qed
  qed
qed

lemma getline_Some:
  assumes "getline lb fp = Inr (Some (line, lb', fp'))"
  shows "file_lines fp = line # file_lines fp'" and "line \<noteq> []"
    and "set line \<subseteq> set fp" and "set fp' \<subseteq> set fp"
proof -
  from assms have ne: "fp \<noteq> []"
    and line: "line = takeWhile (\<lambda>c. c \<noteq> NL) fp @ take 1 (dropWhile (\<lambda>c. c \<noteq> NL) fp)"
    and rest: "fp' = drop 1 (dropWhile (\<lambda>c. c \<noteq> NL) fp)"
    by (auto simp: getline_def Let_def split: if_splits)
  show "file_lines fp = line # file_lines fp'"
    using ne by (subst file_lines_getline) (simp add: line rest)
  show "line \<noteq> []"
    using ne unfolding line by (cases fp) auto
  have "set (take 1 (dropWhile (\<lambda>c. c \<noteq> NL) fp)) \<subseteq> set fp"
    by (meson set_take_subset set_dropWhileD subsetI subsetD)
  moreover have "set (takeWhile (\<lambda>c. c \<noteq> NL) fp) \<subseteq> set fp"
    by (meson set_takeWhileD subsetI)
  ultimately show "set line \<subseteq> set fp"
    unfolding line by simp
  show "set fp' \<subseteq> set fp"
    unfolding rest by (meson set_drop_subset set_dropWhileD subsetI subsetD)
qed

lemma getline_fits:
  assumes "fp \<noteq> []" and "\<forall>line\<in>set (file_lines fp). length line < 1024"
    and "1024 \<le> buf_alloc lb \<or> buf_n lb \<le> buf_alloc lb"
  shows "\<exists>line lb' fp'. getline lb fp = Inr (Some (line, lb', fp')) \<and>
           (1024 \<le> buf_alloc lb' \<or> buf_n lb' \<le> buf_alloc lb')"
proof -
  define line where "line = takeWhile (\<lambda>c. c \<noteq> NL) fp @ take 1 (dropWhile (\<lambda>c. c \<noteq> NL) fp)"
  have "line \<in> set (file_lines fp)"
    using assms(1) by (subst file_lines_getline) (simp add: line_def)
  with assms(2) have "length line + 1 \<le> 1024" by fastforce
  with assms(1,3) show ?thesis
    unfolding getline_def Let_def line_def [symmetric] by auto
qed

lemma parse_loop_rows:
  "NUL \<notin> set fp \<Longrightarrow> \<forall>line\<in>set (file_lines fp). length line < 1024 \<Longrightarrow>
   1024 \<le> buf_alloc lb \<or> buf_n lb \<le> buf_alloc lb \<Longrightarrow>
   parse_loop lb fp il = Inr (il @ usable_rows fp)"
proof (induction lb fp il rule: parse_loop.induct)
  case (1 lb fp il)
  show ?case
  proof (cases "fp = []")
    case True
    then show ?thesis
      by (subst parse_loop.simps) (simp add: getline_def usable_rows_def)
  next
    case False
    with "1.prems"(2,3) obtain line lb' fp' where
      g: "getline lb fp = Inr (Some (line, lb', fp'))"
      and ok: "1024 \<le> buf_alloc lb' \<or> buf_n lb' \<le> buf_alloc lb'"
      using getline_fits by blast
    note facts = getline_Some [OF g]
    from facts(3) "1.prems"(1) have "NUL \<notin> set line" by blast
    then have pl: "parse_line line il = Inr (il @ row_of line)"
      using facts(2) by (rule parse_line_text)
    from facts(4) "1.prems"(1) have nul: "NUL \<notin> set fp'" by blast
    from facts(1) "1.prems"(2) have short: "\<forall>line\<in>set (file_lines fp'). length line < 1024"
      by simp
    have "parse_loop lb' fp' (il @ row_of line) = Inr ((il @ row_of line) @ usable_rows fp')"
      using "1.IH" [OF g refl refl refl pl nul short ok] .
    then show ?thesis
      by (subst parse_loop.simps) (simp add: g pl usable_rows_def facts(1))
  qed
qed

lemma parse_file_usable_rows:
  assumes "fs filename = Some contents" and "NUL \<notin> set contents"
    and "\<forall>line\<in>set (file_lines contents). length line < 1024"
  shows "parse_file fs n0 filename = Inr (usable_rows contents)"
  using assms by (simp add: parse_file_def parse_loop_rows)

section \<open>The loop over the transcripts\<close>




lemma buffer_size_exact:
  assumes "n < 2 ^ 21" and "len < 2 ^ 63"
  shows "buffer_size len n = len + 1024 * n"
proof -
  have prod: "(1024 :: 32 word) * word_of_nat n = word_of_int (1024 * int n)"
    by simp
  have "sint (word_of_int (1024 * int n) :: 32 word) = signed_take_bit 31 (1024 * int n)"
    unfolding sint_sbintrunc' by simp
  also have "\<dots> = 1024 * int n"
    using assms(1) by (intro signed_take_bit_int_eq_self) simp_all
  finally have "buffer_size len n = unat (word_of_nat (len + 1024 * n) :: 64 word)"
    unfolding buffer_size_def prod by simp
  also have "\<dots> = len + 1024 * n"
    using assms by (intro of_nat_inverse [OF refl]) simp
  finally show ?thesis .
qed






lemma cols_split_no_delim: "d \<notin> set s \<Longrightarrow> cols_split s d = [s]"
  by (induction s) auto

lemma cols_split_append: "cols_split (a @ d # b) d = cols_split a d @ cols_split b d"
proof (induction a)
  case Nil
  show ?case by simp
next
  case (Cons c a)
  show ?case
  proof (cases "c = d")
    case True
    with Cons.IH show ?thesis by simp
  next
    case False
    obtain tok toks where "cols_split a d = tok # toks"
      by (cases "cols_split a d") auto
    with Cons.IH False show ?thesis by simp
  qed
qed



section \<open>Entries of the table\<close>

lemma parse_line_nonempty:
  assumes "parse_line buf il = Inr il'"
    and "\<forall>it\<in>set il. item_key it \<noteq> [] \<and> item_value it \<noteq> []"
  shows "\<forall>it\<in>set il'. item_key it \<noteq> [] \<and> item_value it \<noteq> []"
proof -
  define line where "line = strip_newline (c_str buf)"
  have ne: "c_str buf \<noteq> []"
    using assms(1) by (auto simp: parse_line_def strlen_def Let_def)
  then have body: "parse_line buf il =
        (case strtok line TAB of
           None \<Rightarrow> Inr il
         | Some (k, saved) \<Rightarrow>
             (case strtok saved TAB of
                None \<Rightarrow> Inr il
              | Some (v, _) \<Rightarrow> Inr (il @ [\<lparr>item_key = k, item_value = v\<rparr>])))"
    by (simp add: parse_line_def strlen_def Let_def line_def strip_newline_def
        last_conv_nth butlast_conv_take)
  show ?thesis
  proof (cases "strtok line TAB")
    case None
    with body assms show ?thesis by simp
  next
    case (Some p)
    obtain k saved where p: "p = (k, saved)" by (cases p)
    with Some have k: "k \<noteq> []" using strtok_Some by blast
    show ?thesis
    proof (cases "strtok saved TAB")
      case None
      with body Some p assms show ?thesis by simp
    next
      case (Some q)
      obtain v saved' where q: "q = (v, saved')" by (cases q)
      with Some have "v \<noteq> []" using strtok_Some by blast
      with k body \<open>strtok line TAB = Some p\<close> p Some q assms show ?thesis by auto
    qed
  qed
qed

lemma parse_loop_nonempty:
  "parse_loop lb fp il = Inr il' \<Longrightarrow>
   \<forall>it\<in>set il. item_key it \<noteq> [] \<and> item_value it \<noteq> [] \<Longrightarrow>
   \<forall>it\<in>set il'. item_key it \<noteq> [] \<and> item_value it \<noteq> []"
proof (induction lb fp il rule: parse_loop.induct)
  case (1 lb fp il)
  show ?case
  proof (cases "getline lb fp")
    case (Inl e)
    with "1.prems"(1) show ?thesis
      by (subst (asm) parse_loop.simps) simp
  next
    case (Inr r)
    show ?thesis
    proof (cases r)
      case None
      with Inr "1.prems" show ?thesis
        by (subst (asm) parse_loop.simps) simp
    next
      case (Some p)
      obtain line lb' fp' where p: "p = (line, lb', fp')" by (cases p)
      with Inr Some have g: "getline lb fp = Inr (Some (line, lb', fp'))" by simp
      show ?thesis
      proof (cases "parse_line line il")
        case (Inl e)
        with g "1.prems"(1) show ?thesis
          by (subst (asm) parse_loop.simps) simp
      next
        case (Inr il1)
        with g "1.prems"(1) have "parse_loop lb' fp' il1 = Inr il'"
          by (subst (asm) parse_loop.simps) simp
        moreover have "\<forall>it\<in>set il1. item_key it \<noteq> [] \<and> item_value it \<noteq> []"
          using Inr "1.prems"(2) by (rule parse_line_nonempty)
        ultimately show ?thesis
          by (rule "1.IH" [OF g refl refl refl Inr])
      qed
    qed
  qed
qed

section \<open>Startup and its errors\<close>

lemma annotate_realloc_ok:
  "annotate True val new_tag =
     Inr ((case strstr val ''Format: '' of
             None \<Rightarrow> val
           | Some p \<Rightarrow> take (p + 8 + strlen (drop (p + 8) val) - 1) val) @
          [PIPE] @ new_tag @ [QUOTE])"
  by (simp add: annotate_def Let_def strcat_def strlen_def split: option.splits)

lemma patch_header_realloc_ok: "\<exists>hdr'. patch_header True hdr new_tag = Inr hdr'"
  by (simp add: patch_header_def annotate_realloc_ok split: option.splits)

lemma init_result:
  assumes "3 \<le> length argv"
  shows "init fs n0 True argv out =
           (case parse_file fs n0 (argv ! 2) of
              Inl e \<Rightarrow> Inl e
            | Inr its \<Rightarrow>
                if its = [] then Inl (ReadingFile (argv ! 2))
                else (case patch_header True out (argv ! 1) of
                        Inl e \<Rightarrow> Inl e
                      | Inr hdr \<Rightarrow> Inr \<lparr>header = hdr, items = its\<rparr>))"
  using assms by (simp add: init_def Let_def split: sum.splits)

lemma strstr_bound: "strstr s needle = Some p \<Longrightarrow> p + length needle \<le> length s"
proof (induction s arbitrary: p)
  case Nil
  then show ?case by (simp split: if_splits)
next
  case (Cons c cs)
  show ?case
  proof (cases "prefix needle (c # cs)")
    case True
    with Cons.prems have "p = 0" by simp
    with True show ?thesis using prefix_length_le by fastforce
  next
    case False
    with Cons.prems obtain p' where "strstr cs needle = Some p'" and "p = Suc p'"
      by auto
    with Cons.IH show ?thesis by fastforce
  qed
qed

lemma annotate_no_marker:
  "strstr val ''Format: '' = None \<Longrightarrow> annotate True val new_tag = Inr (val @ [PIPE] @ new_tag @ [QUOTE])"
  by (simp add: annotate_realloc_ok)

lemma annotate_with_marker:
  assumes "strstr val ''Format: '' = Some p"
  shows "annotate True val new_tag = Inr (butlast val @ [PIPE] @ new_tag @ [QUOTE])"
proof -
  from assms have "p + 8 \<le> length val"
    using strstr_bound by fastforce
  then have "take (p + 8 + strlen (drop (p + 8) val) - 1) val = butlast val"
    by (simp add: strlen_def butlast_conv_take)
  with assms show ?thesis
    by (simp add: annotate_realloc_ok)
qed

section \<open>The search\<close>

text \<open>
  Whatever the order of the table, an item that \<^verbatim>\<open>bsearch\<close> returns is in the table and
  compares equal to the key; for C strings, equal under \<^verbatim>\<open>strcmp\<close> is equal.
\<close>

lemma bsearch_loop_found:
  "bsearch_loop k base compar l u = Some found \<Longrightarrow> found \<in> set base \<and> compar k found = 0"
proof (induction k base compar l u rule: bsearch_loop.induct)
  case (1 k base compar l u)
  show ?case
  proof (cases "l < u \<and> u \<le> length base")
    case False
    with "1.prems" show ?thesis
      by (subst (asm) bsearch_loop.simps) simp
  next
    case True
    define idx where "idx = (l + u) div 2"
    from True have inb: "idx < length base"
      unfolding idx_def by linarith
    consider (below) "compar k (base ! idx) < 0"
      | (above) "\<not> compar k (base ! idx) < 0" "compar k (base ! idx) > 0"
      | (hit) "compar k (base ! idx) = 0"
      by linarith
    then show ?thesis
    proof cases
      case below
      with True "1.prems" have "bsearch_loop k base compar l idx = Some found"
        by (subst (asm) bsearch_loop.simps) (simp add: idx_def Let_def)
      with "1.IH"(1) [OF True idx_def refl] below show ?thesis
        by blast
    next
      case above
      with True "1.prems" have "bsearch_loop k base compar (idx + 1) u = Some found"
        by (subst (asm) bsearch_loop.simps) (simp add: idx_def Let_def)
      with "1.IH"(2) [OF True idx_def refl] above show ?thesis
        by blast
    next
      case hit
      with True "1.prems" have "found = base ! idx"
        by (subst (asm) bsearch_loop.simps) (simp add: idx_def Let_def)
      with hit inb show ?thesis by simp
    qed
  qed
qed

lemma of_char_eq_0: "(of_char c :: nat) = 0 \<longleftrightarrow> c = NUL"
proof
  assume "(of_char c :: nat) = 0"
  then have "(of_char c :: nat) = of_char NUL" by simp
  then show "c = NUL" by (simp only: of_char_eq_iff)
next
  assume "c = NUL"
  then show "(of_char c :: nat) = 0" by simp
qed

lemma strcmp_eq_0: "NUL \<notin> set a \<Longrightarrow> NUL \<notin> set b \<Longrightarrow> strcmp a b = 0 \<longleftrightarrow> a = b"
proof (induction a b rule: strcmp.induct)
  case 1
  show ?case by simp
next
  case (2 y ys)
  then have "y \<noteq> NUL" by auto
  then show ?case by (simp add: of_char_eq_0)
next
  case (3 x xs)
  then have "x \<noteq> NUL" by auto
  then show ?case by (simp add: of_char_eq_0)
next
  case (4 x xs y ys)
  then show ?case by auto
qed

lemma matched_value_found:
  assumes "matched_value its t = Some v"
  shows "\<exists>it\<in>set its. item_value it = v \<and> strcmp (cols_split t PIPE ! 4) (item_key it) = 0"
proof -
  from assms obtain found where
    "bsearch \<lparr>item_key = cols_split t PIPE ! 4, item_value = []\<rparr> its cmp = Some found"
    and "item_value found = v"
    by (auto simp: matched_value_def Let_def split: if_splits)
  then show ?thesis
    using bsearch_loop_found [of "\<lparr>item_key = cols_split t PIPE ! 4, item_value = []\<rparr>" its cmp 0 "length its" found]
    by (auto simp: bsearch_def cmp_def)
qed

text \<open>
  \<^verbatim>\<open>strcmp\<close> on C strings is the lexicographic order of their bytes, and a sorted table
  is a list whose keys are in that order. On such a table the search finds every key
  that is there.
\<close>

lemma char_less_of_char: "(c < d) = ((of_char c :: nat) < of_char d)" for c d :: char
  by (simp add: less_char_def)

lemma strcmp_less: "NUL \<notin> set a \<Longrightarrow> NUL \<notin> set b \<Longrightarrow> strcmp a b < 0 \<longleftrightarrow> a < b"
proof (induction a b rule: strcmp.induct)
  case 1
  show ?case by simp
next
  case (2 y ys)
  then have "y \<noteq> NUL" by auto
  then have "(of_char y :: nat) \<noteq> 0" by (simp add: of_char_eq_0)
  then show ?case by simp
next
  case (3 x xs)
  show ?case by simp
next
  case (4 x xs y ys)
  then show ?case by (auto simp: char_less_of_char)
qed

lemma strcmp_greater: "NUL \<notin> set a \<Longrightarrow> NUL \<notin> set b \<Longrightarrow> strcmp a b > 0 \<longleftrightarrow> b < a"
proof -
  assume a: "NUL \<notin> set a" and b: "NUL \<notin> set b"
  have "strcmp a b > 0 \<longleftrightarrow> \<not> strcmp a b < 0 \<and> strcmp a b \<noteq> 0" by linarith
  also have "\<dots> \<longleftrightarrow> \<not> a < b \<and> a \<noteq> b"
    using a b by (simp add: strcmp_less strcmp_eq_0)
  also have "\<dots> \<longleftrightarrow> b < a" by auto
  finally show ?thesis .
qed

lemma table_sorted_iff:
  "\<forall>it\<in>set its. NUL \<notin> set (item_key it) \<Longrightarrow> table_sorted its \<longleftrightarrow> sorted (map item_key its)"
proof (induction its rule: table_sorted.induct)
  case (1 a b rest)
  then have "strcmp (item_key a) (item_key b) \<le> 0 \<longleftrightarrow> item_key a \<le> item_key b"
    using strcmp_greater [of "item_key a" "item_key b"] by (auto simp: not_less [symmetric])
  moreover have "sorted (map item_key (a # b # rest)) \<longleftrightarrow>
                 item_key a \<le> item_key b \<and> sorted (map item_key (b # rest))"
    by auto
  ultimately show ?case using 1 by simp
qed simp_all

lemma bsearch_loop_complete:
  assumes below: "\<And>i j. i \<le> j \<Longrightarrow> j < length base \<Longrightarrow> compar k (base ! i) < 0 \<Longrightarrow> compar k (base ! j) < 0"
    and above: "\<And>i j. i \<le> j \<Longrightarrow> j < length base \<Longrightarrow> compar k (base ! j) > 0 \<Longrightarrow> compar k (base ! i) > 0"
    and hit: "compar k (base ! i) = 0"
  shows "l \<le> i \<Longrightarrow> i < u \<Longrightarrow> u \<le> length base \<Longrightarrow>
         \<exists>found. bsearch_loop k base compar l u = Some found"
proof (induction "u - l" arbitrary: l u rule: less_induct)
  case less
  have range: "l < u \<and> u \<le> length base"
    using less.prems by simp
  define idx where "idx = (l + u) div 2"
  have idx: "l \<le> idx" "idx < u"
    using range unfolding idx_def by linarith+
  consider (lt) "compar k (base ! idx) < 0"
    | (gt) "\<not> compar k (base ! idx) < 0" "compar k (base ! idx) > 0"
    | (eq) "\<not> compar k (base ! idx) < 0" "\<not> compar k (base ! idx) > 0"
    by linarith
  then show ?case
  proof cases
    case lt
    have "i < idx"
    proof (rule ccontr)
      assume "\<not> i < idx"
      then have "idx \<le> i" by simp
      moreover have "i < length base" using less.prems by simp
      ultimately have "compar k (base ! i) < 0"
        using lt below by blast
      with hit show False by simp
    qed
    moreover have "idx - l < u - l" using idx by simp
    moreover have "idx \<le> length base" using idx range by simp
    ultimately have "\<exists>found. bsearch_loop k base compar l idx = Some found"
      using less.hyps less.prems(1) by blast
    with range lt show ?thesis
      by (subst bsearch_loop.simps) (simp add: idx_def Let_def)
  next
    case gt
    have "idx < i"
    proof (rule ccontr)
      assume "\<not> idx < i"
      then have "i \<le> idx" by simp
      moreover have "idx < length base" using idx range by simp
      ultimately have "compar k (base ! i) > 0"
        using gt(2) above by blast
      with hit show False by simp
    qed
    then have "idx + 1 \<le> i" by simp
    moreover have "u - (idx + 1) < u - l" using idx by simp
    ultimately have "\<exists>found. bsearch_loop k base compar (idx + 1) u = Some found"
      using less.hyps less.prems(2,3) by blast
    with range gt show ?thesis
      by (subst bsearch_loop.simps) (simp add: idx_def Let_def)
  next
    case eq
    with range show ?thesis
      by (subst bsearch_loop.simps) (simp add: idx_def Let_def)
  qed
qed

lemma bsearch_sorted_finds:
  assumes sorted: "table_sorted its"
    and keys: "\<forall>it\<in>set its. NUL \<notin> set (item_key it)"
    and k: "NUL \<notin> set k"
    and present: "it \<in> set its" "item_key it = k"
  shows "\<exists>found\<in>set its. bsearch \<lparr>item_key = k, item_value = v\<rparr> its cmp = Some found \<and>
           item_key found = k"
proof -
  have srt: "sorted (map item_key its)"
    using sorted keys by (simp add: table_sorted_iff)
  from present obtain i where i: "i < length its" "its ! i = it"
    by (auto simp: in_set_conv_nth)
  have mono: "item_key (its ! m) \<le> item_key (its ! n)" if "m \<le> n" "n < length its" for m n
    using sorted_nth_mono [OF srt, of m n] that by simp
  have nonul: "NUL \<notin> set (item_key (its ! n))" if "n < length its" for n
    using keys that by simp
  have "\<exists>found. bsearch_loop \<lparr>item_key = k, item_value = v\<rparr> its cmp 0 (length its) = Some found"
  proof (rule bsearch_loop_complete [where i = i])
    fix m n
    assume mn: "m \<le> n" "n < length its"
    assume "cmp \<lparr>item_key = k, item_value = v\<rparr> (its ! m) < 0"
    then have "k < item_key (its ! m)"
      using k nonul [of m] mn by (simp add: cmp_def strcmp_less)
    with mono [OF mn] have "k < item_key (its ! n)" by simp
    then show "cmp \<lparr>item_key = k, item_value = v\<rparr> (its ! n) < 0"
      using k nonul [OF mn(2)] by (simp add: cmp_def strcmp_less)
  next
    fix m n
    assume mn: "m \<le> n" "n < length its"
    assume "cmp \<lparr>item_key = k, item_value = v\<rparr> (its ! n) > 0"
    then have "item_key (its ! n) < k"
      using k nonul [OF mn(2)] by (simp add: cmp_def strcmp_greater)
    with mono [OF mn] have "item_key (its ! m) < k" by simp
    then show "cmp \<lparr>item_key = k, item_value = v\<rparr> (its ! m) > 0"
      using k nonul [of m] mn by (simp add: cmp_def strcmp_greater)
  next
    show "cmp \<lparr>item_key = k, item_value = v\<rparr> (its ! i) = 0"
      using i present k keys by (simp add: cmp_def strcmp_eq_0)
  qed (use i in simp_all)
  then obtain found where f: "bsearch \<lparr>item_key = k, item_value = v\<rparr> its cmp = Some found"
    by (auto simp: bsearch_def)
  then have "found \<in> set its" and "cmp \<lparr>item_key = k, item_value = v\<rparr> found = 0"
    using bsearch_loop_found [of "\<lparr>item_key = k, item_value = v\<rparr>" its cmp 0 "length its" found]
    by (simp_all add: bsearch_def)
  then have "item_key found = k"
    using k keys by (simp add: cmp_def strcmp_eq_0)
  with f \<open>found \<in> set its\<close> show ?thesis by blast
qed

section \<open>The guard of the hook\<close>

lemma process_skips:
  "fst (bcf_get_info_string (header st) rec ''CSQ'') \<le> 0 \<Longrightarrow> process avail st rec = Inr rec"
  by (cases "bcf_get_info_string (header st) rec ''CSQ''") (simp add: process_def)


lemma empty_key_empty_slot:
  "4 < length (cols_split t PIPE) \<Longrightarrow> cols_split t PIPE ! 4 = [] \<Longrightarrow> new_slot its t = []"
  by (simp add: new_slot_def matched_value_def)

section \<open>Claims about the table\<close>

text \<open>
  C1. The table that \<^verbatim>\<open>parse_file\<close> returns is sorted by key: no key is greater than the
  key after it. The code does not do this. \<^verbatim>\<open>parse_file\<close> returns the rows in the order
  of the file and nothing sorts them afterwards, although \<^verbatim>\<open>process\<close> searches them
  with \<^verbatim>\<open>bsearch\<close>. For the file of the two lines \<^verbatim>\<open>B<tab>1\<close> and \<^verbatim>\<open>A<tab>2\<close> the
  table is B, A, whatever \<^verbatim>\<open>n\<close> holds.
\<close>

theorem parse_file_unsorted:
  "parse_file [''genes.tsv'' \<mapsto> ''B'' @ [TAB] @ ''1'' @ [NL] @ ''A'' @ [TAB] @ ''2'' @ [NL]] n0 ''genes.tsv'' =
     Inr [\<lparr>item_key = ''B'', item_value = ''1''\<rparr>, \<lparr>item_key = ''A'', item_value = ''2''\<rparr>] \<and>
   \<not> table_sorted [\<lparr>item_key = ''B'', item_value = ''1''\<rparr>, \<lparr>item_key = ''A'', item_value = ''2''\<rparr>]"
  using parse_file_usable_rows
    [of "[''genes.tsv'' \<mapsto> ''B'' @ [TAB] @ ''1'' @ [NL] @ ''A'' @ [TAB] @ ''2'' @ [NL]]" "''genes.tsv''"
        "''B'' @ [TAB] @ ''1'' @ [NL] @ ''A'' @ [TAB] @ ''2'' @ [NL]" n0]
  by (simp add: usable_rows_def row_of_def tab_tokens_def tokens_def strip_newline_def)

text \<open>
  What follows from it for the search: in the table C, B, A of a file in that order, the
  key A is not found.
\<close>

lemma unsorted_lookup_misses:
  "bsearch \<lparr>item_key = ''A'', item_value = []\<rparr>
     [\<lparr>item_key = ''C'', item_value = ''3''\<rparr>, \<lparr>item_key = ''B'', item_value = ''2''\<rparr>,
      \<lparr>item_key = ''A'', item_value = ''1''\<rparr>] cmp = None"
  by (simp add: bsearch_def bsearch_loop.simps cmp_def)

lemma takeWhile_until: "d \<notin> set xs \<Longrightarrow> takeWhile (\<lambda>c. c \<noteq> d) (xs @ d # ys) = xs"
  by (induction xs) auto

lemma dropWhile_until: "d \<notin> set xs \<Longrightarrow> dropWhile (\<lambda>c. c \<noteq> d) (xs @ d # ys) = d # ys"
  by (induction xs) auto

lemma long_line:
  "takeWhile (\<lambda>c. c \<noteq> NL) (''K'' @ [TAB] @ replicate 1100 (CHR ''v'') @ [NL]) =
     ''K'' @ [TAB] @ replicate 1100 (CHR ''v'')"
  "dropWhile (\<lambda>c. c \<noteq> NL) (''K'' @ [TAB] @ replicate 1100 (CHR ''v'') @ [NL]) = [NL]"
  using takeWhile_until [of NL "''K'' @ [TAB] @ replicate 1100 (CHR ''v'')" "[]"]
    dropWhile_until [of NL "''K'' @ [TAB] @ replicate 1100 (CHR ''v'')" "[]"]
  by simp_all

text \<open>
  C7. Every line of the file with fewer than two tokens between tabs that are not empty
  is left out without an error, and every line with two or more gives one item, whose key
  and value are the first two tokens. The code does not do this for a long line: the
  buffer of \<^verbatim>\<open>getline\<close> has 1024 bytes, and the size \<^verbatim>\<open>n\<close> that \<^verbatim>\<open>getline\<close> is given
  for it has no value. With 4096 in \<^verbatim>\<open>n\<close>, the line of the key K and a value of 1100
  bytes, which has two tokens, is written over the end of the buffer.
\<close>

theorem parse_file_long_line_overflow:
  "tab_tokens (''K'' @ [TAB] @ replicate 1100 (CHR ''v'') @ [NL]) = [''K'', replicate 1100 (CHR ''v'')] \<and>
   parse_file [''genes.tsv'' \<mapsto> ''K'' @ [TAB] @ replicate 1100 (CHR ''v'') @ [NL]] 4096 ''genes.tsv'' =
     Inl BufferOverflow"
proof
  have "cols_split (''K'' @ TAB # replicate 1100 (CHR ''v'')) TAB =
          cols_split ''K'' TAB @ cols_split (replicate 1100 (CHR ''v'')) TAB"
    by (rule cols_split_append)
  then have "cols_split (''K'' @ TAB # replicate 1100 (CHR ''v'')) TAB = [''K'', replicate 1100 (CHR ''v'')]"
    by (simp add: cols_split_no_delim)
  then show "tab_tokens (''K'' @ [TAB] @ replicate 1100 (CHR ''v'') @ [NL]) = [''K'', replicate 1100 (CHR ''v'')]"
    by (simp add: tab_tokens_def tokens_def strip_newline_def butlast_append)
next
  have "getline \<lparr>buf_alloc = 1024, buf_n = 4096\<rparr> (''K'' @ [TAB] @ replicate 1100 (CHR ''v'') @ [NL]) =
          Inl BufferOverflow"
    unfolding getline_def Let_def long_line by simp
  then show "parse_file [''genes.tsv'' \<mapsto> ''K'' @ [TAB] @ replicate 1100 (CHR ''v'') @ [NL]] 4096 ''genes.tsv'' =
     Inl BufferOverflow"
    by (simp add: parse_file_def parse_loop.simps)
qed

text \<open>
  For a text file whose lines fit the buffer, the table is made of the lines in order,
  whatever \<^verbatim>\<open>n\<close> holds: a line with fewer than two tokens gives no item and no error,
  and a line with two or more gives one item from its first two tokens; what comes after
  them is not used.
\<close>

lemma parse_file_rows_of_short_lines:
  assumes "fs filename = Some contents" and "NUL \<notin> set contents"
    and "\<forall>line\<in>set (file_lines contents). length line < 1024"
  shows "parse_file fs n0 filename =
           Inr (concat (map (\<lambda>line. if length (tab_tokens line) < 2 then []
                                     else [\<lparr>item_key = tab_tokens line ! 0,
                                            item_value = tab_tokens line ! 1\<rparr>])
                            (file_lines contents)))"
  using assms by (simp add: parse_file_usable_rows usable_rows_def row_of_def Let_def cong: map_cong)

text \<open>
  A file of four lines: a row, a row with an empty second column and a fourth column, a
  key alone, and a last line without a newline.
\<close>

lemma parse_file_four_lines:
  "parse_file [''genes.tsv'' \<mapsto> ''B'' @ [TAB] @ ''1'' @ [NL] @ ''A'' @ [TAB, TAB] @ ''2'' @ [TAB] @ ''x'' @ [NL] @ ''K'' @ [TAB, NL] @ ''Z''] n0 ''genes.tsv'' =
     Inr [\<lparr>item_key = ''B'', item_value = ''1''\<rparr>, \<lparr>item_key = ''A'', item_value = ''2''\<rparr>]"
  using parse_file_rows_of_short_lines
    [of "[''genes.tsv'' \<mapsto> ''B'' @ [TAB] @ ''1'' @ [NL] @ ''A'' @ [TAB, TAB] @ ''2'' @ [TAB] @ ''x'' @ [NL] @ ''K'' @ [TAB, NL] @ ''Z'']"
        "''genes.tsv''"
        "''B'' @ [TAB] @ ''1'' @ [NL] @ ''A'' @ [TAB, TAB] @ ''2'' @ [TAB] @ ''x'' @ [NL] @ ''K'' @ [TAB, NL] @ ''Z''" n0]
  by (simp add: tab_tokens_def tokens_def strip_newline_def)

text \<open>
  C8. The table can hold an entry whose value is the empty string, from a row with a key
  and an empty second column. It cannot: \<^verbatim>\<open>strtok\<close> skips what is empty between two
  tabs, so the row of a key and an empty second column gives no entry at all; and no
  entry of a table that was loaded has an empty key or an empty value.
\<close>

theorem table_entries_nonempty:
  assumes "parse_file fs n0 filename = Inr il" and "it \<in> set il"
  shows "item_key it \<noteq> [] \<and> item_value it \<noteq> []"
proof (cases "fs filename")
  case None
  with assms show ?thesis by (simp add: parse_file_def)
next
  case (Some fp)
  with assms(1) have "parse_loop \<lparr>buf_alloc = 1024, buf_n = n0\<rparr> fp [] = Inr il"
    by (simp add: parse_file_def)
  then have "\<forall>it\<in>set il. item_key it \<noteq> [] \<and> item_value it \<noteq> []"
    by (rule parse_loop_nonempty) simp
  with assms(2) show ?thesis by blast
qed

text \<open>A row whose second column is empty and whose third is not: the third is the value.\<close>

theorem table_entries_nonempty_witness:
  "parse_file [''genes.tsv'' \<mapsto> [CHR ''K'', TAB, TAB, CHR ''X'', NL]] 1024 ''genes.tsv'' =
     Inr [\<lparr>item_key = ''K'', item_value = ''X''\<rparr>] \<and>
   \<lparr>item_key = ''K'', item_value = ''X''\<rparr> \<in> set [\<lparr>item_key = ''K'', item_value = ''X''\<rparr>] \<and>
   item_key \<lparr>item_key = ''K'', item_value = ''X''\<rparr> \<noteq> [] \<and>
   item_value \<lparr>item_key = ''K'', item_value = ''X''\<rparr> \<noteq> []"
proof -
  have p: "parse_file [''genes.tsv'' \<mapsto> [CHR ''K'', TAB, TAB, CHR ''X'', NL]] 1024 ''genes.tsv'' =
             Inr [\<lparr>item_key = ''K'', item_value = ''X''\<rparr>]"
    by (simp add: parse_file_def parse_loop.simps getline_def parse_line_def c_str_def strlen_def
        strtok_def)
  have m: "\<lparr>item_key = ''K'', item_value = ''X''\<rparr> \<in> set [\<lparr>item_key = ''K'', item_value = ''X''\<rparr>]"
    by simp
  from p m table_entries_nonempty [OF p m] show ?thesis by blast
qed

text \<open>The row of a key and an empty second column gives no entry.\<close>

theorem empty_second_column_no_entry:
  "parse_file [''genes.tsv'' \<mapsto> [CHR ''K'', TAB, NL]] 1024 ''genes.tsv'' = Inr []"
  by (simp add: parse_file_def parse_loop.simps getline_def parse_line_def c_str_def strlen_def
      strtok_def)

section \<open>Claims about startup\<close>

text \<open>
  C6. Startup fails exactly when the table file cannot be opened or has no usable row.
  As the code has it, this holds when \<^verbatim>\<open>init\<close> gets its two arguments, memory for the
  description is there, and the file is a text file whose lines fit the buffer of
  \<^verbatim>\<open>getline\<close>: then \<^verbatim>\<open>init\<close> fails exactly in these two cases, with the error of the
  file, and \<^verbatim>\<open>parse_file\<close> has returned a count below one.
\<close>

theorem init_fails_iff:
  assumes "3 \<le> length argv" and "realloc_ok"
    and "\<forall>contents. fs (argv ! 2) = Some contents \<longrightarrow>
           NUL \<notin> set contents \<and> (\<forall>line\<in>set (file_lines contents). length line < 1024)"
  shows "((\<exists>e. init fs n0 realloc_ok argv out = Inl e) \<longleftrightarrow>
            (fs (argv ! 2) = None \<or>
             (\<exists>contents. fs (argv ! 2) = Some contents \<and> usable_rows contents = []))) \<and>
         ((\<exists>e. init fs n0 realloc_ok argv out = Inl e) \<longrightarrow>
            init fs n0 realloc_ok argv out = Inl (ReadingFile (argv ! 2)) \<and>
            (\<exists>il. parse_file fs n0 (argv ! 2) = Inr il \<and> length il < 1))"
proof (cases "fs (argv ! 2)")
  case None
  then have "parse_file fs n0 (argv ! 2) = Inr []" by (simp add: parse_file_def)
  with None assms(1,2) show ?thesis by (simp add: init_result)
next
  case (Some contents)
  with assms(3) have "NUL \<notin> set contents"
    and "\<forall>line\<in>set (file_lines contents). length line < 1024"
    by simp_all
  with Some have p: "parse_file fs n0 (argv ! 2) = Inr (usable_rows contents)"
    by (rule parse_file_usable_rows)
  obtain hdr' where h: "patch_header True out (argv ! 1) = Inr hdr'"
    using patch_header_realloc_ok by blast
  from Some p h assms(1,2) show ?thesis by (simp add: init_result)
qed

text \<open>
  With a table of one row, \<^verbatim>\<open>init\<close> still fails when an argument is missing and when
  \<^verbatim>\<open>realloc\<close> fails.
\<close>

theorem init_fails_with_usable_table:
  "parse_file [''genes.tsv'' \<mapsto> [CHR ''K'', TAB, CHR ''V'', NL]] 1024 ''genes.tsv'' =
     Inr [\<lparr>item_key = ''K'', item_value = ''V''\<rparr>] \<and>
   init [''genes.tsv'' \<mapsto> [CHR ''K'', TAB, CHR ''V'', NL]] 1024 True [''anno-vep'', ''TAG'']
     \<lparr>hdr_info = [''CSQ'' \<mapsto> [(''ID'', ''CSQ''), (''Description'', QUOTE # ''VEP. Format: A|B'' @ [QUOTE])]]\<rparr> =
     Inl Usage \<and>
   init [''genes.tsv'' \<mapsto> [CHR ''K'', TAB, CHR ''V'', NL]] 1024 False [''anno-vep'', ''TAG'', ''genes.tsv'']
     \<lparr>hdr_info = [''CSQ'' \<mapsto> [(''ID'', ''CSQ''), (''Description'', QUOTE # ''VEP. Format: A|B'' @ [QUOTE])]]\<rparr> =
     Inl OutOfMemory"
proof -
  have p: "parse_file [''genes.tsv'' \<mapsto> [CHR ''K'', TAB, CHR ''V'', NL]] 1024 ''genes.tsv'' =
             Inr [\<lparr>item_key = ''K'', item_value = ''V''\<rparr>]"
    by (simp add: parse_file_def parse_loop.simps getline_def parse_line_def c_str_def strlen_def
        strtok_def)
  have h: "patch_header False
             \<lparr>hdr_info = [''CSQ'' \<mapsto> [(''ID'', ''CSQ''), (''Description'', QUOTE # ''VEP. Format: A|B'' @ [QUOTE])]]\<rparr>
             ''TAG'' = Inl OutOfMemory"
    by (simp add: patch_header_def annotate_def)
  from p h show ?thesis
    by (simp add: init_def)
qed

text \<open>A file whose only line has a key and nothing else.\<close>

theorem init_fails_iff_witness:
  "3 \<le> length [''anno-vep'', ''TAG'', ''genes.tsv''] \<and>
   NUL \<notin> set [CHR ''K'', NL] \<and>
   file_lines [CHR ''K'', NL] = [[CHR ''K'', NL]] \<and>
   usable_rows [CHR ''K'', NL] = [] \<and>
   init [''genes.tsv'' \<mapsto> [CHR ''K'', NL]] 1024 True [''anno-vep'', ''TAG'', ''genes.tsv'']
     \<lparr>hdr_info = Map.empty\<rparr> = Inl (ReadingFile ''genes.tsv'')"
  using init_fails_iff
    [of "[''anno-vep'', ''TAG'', ''genes.tsv'']" True "[''genes.tsv'' \<mapsto> [CHR ''K'', NL]]" 1024
        "\<lparr>hdr_info = Map.empty\<rparr>"]
  by (simp add: usable_rows_def row_of_def tab_tokens_def tokens_def strip_newline_def)

text \<open>
  C4. A description without \<^verbatim>\<open>"Format: "\<close> is left as it is. The code does not do
  this: the test for the marker guards only the cut of the last byte, and the three
  \<^verbatim>\<open>strcat\<close> calls after it run in both cases. A description without the marker keeps
  its closing quote and gets \<^verbatim>\<open>|TAG"\<close> after it.
\<close>

theorem annotate_without_marker_appends:
  "strstr (QUOTE # ''Consequence annotations from Ensembl VEP'' @ [QUOTE]) ''Format: '' = None \<and>
   annotate True (QUOTE # ''Consequence annotations from Ensembl VEP'' @ [QUOTE]) ''TAG'' =
     Inr (QUOTE # ''Consequence annotations from Ensembl VEP'' @ [QUOTE] @ ''|TAG'' @ [QUOTE])"
  by (simp add: annotate_def strcat_def strlen_def)

section \<open>Claims about the records\<close>

text \<open>
  C9. A record without the CSQ field comes back from \<^verbatim>\<open>process\<close> as it was: nothing is
  rewritten and nothing is stored.
\<close>

theorem process_absent_field:
  assumes "rec_info rec ''CSQ'' = None"
  shows "process avail st rec = Inr rec"
  using assms by (intro process_skips) (simp add: bcf_get_info_string_def split: option.splits)

theorem process_absent_field_witness:
  "rec_info \<lparr>rec_info = [''AF'' \<mapsto> ''0.5'']\<rparr> ''CSQ'' = None \<and>
   process 65536 \<lparr>header = \<lparr>hdr_info = [''CSQ'' \<mapsto> [(''ID'', ''CSQ'')]]\<rparr>,
            items = [\<lparr>item_key = ''GENE1'', item_value = ''ANNOT''\<rparr>]\<rparr>
     \<lparr>rec_info = [''AF'' \<mapsto> ''0.5'']\<rparr> = Inr \<lparr>rec_info = [''AF'' \<mapsto> ''0.5'']\<rparr>"
  using process_absent_field
    [of "\<lparr>rec_info = [''AF'' \<mapsto> ''0.5'']\<rparr>" 65536
        "\<lparr>header = \<lparr>hdr_info = [''CSQ'' \<mapsto> [(''ID'', ''CSQ'')]]\<rparr>,
          items = [\<lparr>item_key = ''GENE1'', item_value = ''ANNOT''\<rparr>]\<rparr>"]
  by simp

text \<open>
  C5. For a record whose CSQ field is the empty string the new field is \<^verbatim>\<open>|\<close>. As the
  code has it, the field is not rewritten at all: the length that
  \<^verbatim>\<open>bcf_get_info_string\<close> returns is 0, \<^verbatim>\<open>process\<close> rewrites only when it is
  greater than 0, and the record comes back as it was.
\<close>

theorem process_empty_field:
  assumes "rec_info rec ''CSQ'' = Some []"
  shows "process avail st rec = Inr rec"
  using assms by (intro process_skips) (simp add: bcf_get_info_string_def split: option.splits)

theorem process_empty_field_witness:
  "rec_info \<lparr>rec_info = [''CSQ'' \<mapsto> '''']\<rparr> ''CSQ'' = Some [] \<and>
   process 65536 \<lparr>header = \<lparr>hdr_info = [''CSQ'' \<mapsto> [(''ID'', ''CSQ'')]]\<rparr>,
            items = [\<lparr>item_key = ''GENE1'', item_value = ''ANNOT''\<rparr>]\<rparr>
     \<lparr>rec_info = [''CSQ'' \<mapsto> '''']\<rparr> = Inr \<lparr>rec_info = [''CSQ'' \<mapsto> '''']\<rparr>"
  using process_empty_field
    [of "\<lparr>rec_info = [''CSQ'' \<mapsto> '''']\<rparr>" 65536
        "\<lparr>header = \<lparr>hdr_info = [''CSQ'' \<mapsto> [(''ID'', ''CSQ'')]]\<rparr>,
          items = [\<lparr>item_key = ''GENE1'', item_value = ''ANNOT''\<rparr>]\<rparr>"]
  by simp

text \<open>
  The record with the empty field comes back with the empty field, not with \<^verbatim>\<open>|\<close>; and
  the block that rewrites, were it run on the empty string, would look for the fifth
  sub-field of a transcript that has one.
\<close>

theorem empty_field_not_rewritten:
  "process 65536 \<lparr>header = \<lparr>hdr_info = [''CSQ'' \<mapsto> [(''ID'', ''CSQ'')]]\<rparr>,
            items = [\<lparr>item_key = ''GENE1'', item_value = ''ANNOT''\<rparr>]\<rparr>
     \<lparr>rec_info = [''CSQ'' \<mapsto> '''']\<rparr> = Inr \<lparr>rec_info = [''CSQ'' \<mapsto> '''']\<rparr> \<and>
   rec_info \<lparr>rec_info = [''CSQ'' \<mapsto> '''']\<rparr> ''CSQ'' \<noteq> Some ''|'' \<and>
   rewrite_csq 65536 [\<lparr>item_key = ''GENE1'', item_value = ''ANNOT''\<rparr>] '''' = Inl ReadOutOfBounds"
  by (simp add: process_def bcf_get_info_string_def rewrite_csq_def strcat_def strlen_def
      buffer_size_exact calloc_def)

text \<open>
  C3. A transcript with fewer than five sub-fields is taken as one without a match: it
  gets an empty new slot, and nothing is read out of bounds. The code does not do this:
  it reads \<^verbatim>\<open>cols_csq->off[4]\<close> without looking at \<^verbatim>\<open>cols_csq->n\<close>, so for the field
  \<^verbatim>\<open>a|b\<close>, whose only transcript has two sub-fields, it reads a span that is not in use.
\<close>

theorem process_short_transcript:
  "process 65536 \<lparr>header = \<lparr>hdr_info = [''CSQ'' \<mapsto> [(''ID'', ''CSQ'')]]\<rparr>,
            items = [\<lparr>item_key = ''GENE1'', item_value = ''ANNOT''\<rparr>]\<rparr>
     \<lparr>rec_info = [''CSQ'' \<mapsto> ''a|b'']\<rparr> = Inl ReadOutOfBounds"
  by (simp add: process_def bcf_get_info_string_def rewrite_csq_def strcat_def strlen_def
      buffer_size_exact calloc_def)





section \<open>Claims about the output buffer\<close>






end
